theory Spec2Isabelle
  imports Complex_Main "HOL-Library.Sublist"
begin

section \<open>JavaScript strings\<close>

text \<open>
  A JavaScript string is modelled as a \<open>string\<close> (a list of characters). The scripts only
  inspect ASCII characters (diff markers, digits, braces, back-ticks, white space), so the
  8-bit characters of HOL stand for the UTF-16 code units of the source.
\<close>

text \<open>\<^verbatim>\<open>s.startsWith(p)\<close>\<close>

fun startsWith :: "string \<Rightarrow> string \<Rightarrow> bool" where
  "startsWith s [] = True"
| "startsWith [] (p # ps) = False"
| "startsWith (c # cs) (p # ps) = (c = p \<and> startsWith cs ps)"

text \<open>\<^verbatim>\<open>s.split('\n')\<close>: the result always has at least one element.\<close>

fun split_nl :: "string \<Rightarrow> string list" where
  "split_nl [] = [[]]"
| "split_nl (c # cs) =
     (if c = CHR ''\<newline>'' then [] # split_nl cs
      else (case split_nl cs of [] \<Rightarrow> [[c]] | l # ls \<Rightarrow> (c # l) # ls))"

text \<open>The character class \<^verbatim>\<open>\d\<close> and the value of a digit.\<close>

definition is_digit :: "char \<Rightarrow> bool" where
  "is_digit c = (48 \<le> (of_char c :: nat) \<and> (of_char c :: nat) \<le> 57)"

definition digit_val :: "char \<Rightarrow> int" where
  "digit_val c = int (of_char c) - 48"

text \<open>
  \<^verbatim>\<open>parseInt(ds)\<close> on a string of decimal digits. JavaScript numbers are doubles; the
  model computes with unbounded integers, which agrees with the source for every line
  number below \<open>2^53\<close>.
\<close>

definition parseInt :: "string \<Rightarrow> int" where
  "parseInt ds = foldl (\<lambda>a c. 10 * a + digit_val c) 0 ds"

section \<open>The diff line locator of \<^verbatim>\<open>reviewPR\<close>\<close>

subsection \<open>The hunk header pattern\<close>

text \<open>
  The regular expression \<^verbatim>\<open>/@@ -\d+(?:,\d+)? \+(\d+)(?:,\d+)? @@/\<close> is matched piece by
  piece. \<open>expect p s\<close> consumes the literal \<open>p\<close>; \<open>digits1\<close> is \<^verbatim>\<open>\d+\<close>, which can only
  succeed with the maximal run of digits, because each \<^verbatim>\<open>\d+\<close> of the pattern is followed
  by a character that is not a digit; \<open>opt_len\<close> is \<^verbatim>\<open>(?:,\d+)?\<close>, which is followed by a
  blank, so that skipping the group when it could be taken cannot succeed either.
\<close>

fun expect :: "string \<Rightarrow> string \<Rightarrow> string option" where
  "expect [] s = Some s"
| "expect (p # ps) [] = None"
| "expect (p # ps) (c # cs) = (if c = p then expect ps cs else None)"

definition digits1 :: "string \<Rightarrow> (string \<times> string) option" where
  "digits1 s =
     (let ds = takeWhile is_digit s
      in if ds = [] then None else Some (ds, dropWhile is_digit s))"

definition opt_len :: "string \<Rightarrow> string" where
  "opt_len s =
     (case expect '','' s of
        None \<Rightarrow> s
      | Some r \<Rightarrow> (case digits1 r of None \<Rightarrow> s | Some (ds, r') \<Rightarrow> r'))"

text \<open>The pattern anchored at the start of \<open>s\<close>; the result is capture group 1.\<close>

definition hunk_header_at :: "string \<Rightarrow> string option" where
  "hunk_header_at s =
     (case expect ''@@ -'' s of
        None \<Rightarrow> None
      | Some s1 \<Rightarrow>
     (case digits1 s1 of
        None \<Rightarrow> None
      | Some (old_start, s2) \<Rightarrow>
     (case expect '' +'' (opt_len s2) of
        None \<Rightarrow> None
      | Some s3 \<Rightarrow>
     (case digits1 s3 of
        None \<Rightarrow> None
      | Some (new_start, s4) \<Rightarrow>
     (case expect '' @@'' (opt_len s4) of
        None \<Rightarrow> None
      | Some s5 \<Rightarrow> Some new_start)))))"

text \<open>\<^verbatim>\<open>line.match(...)\<close> is not anchored: the leftmost match in the line is taken.\<close>

fun hunk_header_match :: "string \<Rightarrow> string option" where
  "hunk_header_match [] = hunk_header_at []"
| "hunk_header_match (c # cs) =
     (case hunk_header_at (c # cs) of
        Some m \<Rightarrow> Some m
      | None \<Rightarrow> hunk_header_match cs)"

subsection \<open>The scan\<close>

text \<open>
  The loop \<^verbatim>\<open>for (let i = 0; i < patchLines.length; i++)\<close> as a recursion over the lines
  that are left. \<open>i\<close> is the loop index, \<open>lineCounter\<close> the new-file line counter and
  \<open>target\<close> is \<^verbatim>\<open>review.line\<close>. The result is \<^verbatim>\<open>position\<close>: \<open>None\<close> is \<^verbatim>\<open>null\<close>.
\<close>

fun scan :: "string list \<Rightarrow> nat \<Rightarrow> int \<Rightarrow> int \<Rightarrow> nat option" where
  "scan [] i lineCounter target = None"
| "scan (line # rest) i lineCounter target =
     (case (if startsWith line ''@@'' then hunk_header_match line else None) of
        Some m \<Rightarrow> scan rest (i + 1) (parseInt m - 1) target
      | None \<Rightarrow>
          if \<not> startsWith line ''---'' \<and> \<not> startsWith line ''+++'' then
            (let lineCounter' = (if \<not> startsWith line ''-'' then lineCounter + 1 else lineCounter)
             in if lineCounter' = target then Some (i + 1)
                else scan rest (i + 1) lineCounter' target)
          else scan rest (i + 1) lineCounter target)"

text \<open>
  The locator for one review comment: the guard \<^verbatim>\<open>if (!file.patch) continue\<close>, the split
  and the scan. A position is at least 1, so the later test \<^verbatim>\<open>if (position)\<close> succeeds
  exactly when the scan found one.
\<close>

definition findPosition :: "string \<Rightarrow> int \<Rightarrow> nat option" where
  "findPosition patch target =
     (if patch = [] then None else scan (split_nl patch) 0 0 target)"

section \<open>Unified diffs as the specification describes them\<close>

text \<open>
  The definitions of this section do not come from the source: they follow the data model
  of the specification (a diff is a sequence of hunks; a hunk is a header
  \<^verbatim>\<open>@@ -a,b +c,d @@\<close> and content lines tagged context, added or removed; \<^verbatim>\<open>+c\<close> is the
  new-file line number of the first new-file line after the header), and are what the
  locator is compared with.
\<close>

datatype tag = Context | Added | Removed

record hunk =
  oldStart :: nat
  oldLen :: "nat option"
  newStart :: nat
  newLen :: "nat option"
  heading :: string
  body :: "(tag \<times> string) list"

record udiff =
  file_markers :: "(string \<times> string) option"
  hunks :: "hunk list"

text \<open>Decimal numerals, as a diff tool prints them.\<close>

definition digit_char :: "nat \<Rightarrow> char" where
  "digit_char d = char_of (48 + d)"

fun dec :: "nat \<Rightarrow> string" where
  "dec n = (if n < 10 then [digit_char n] else dec (n div 10) @ [digit_char (n mod 10)])"

declare dec.simps [simp del]

text \<open>The text of a diff: one line per header and per content line, joined by newlines.\<close>

definition render_range :: "nat \<Rightarrow> nat option \<Rightarrow> string" where
  "render_range s l = dec s @ (case l of None \<Rightarrow> [] | Some n \<Rightarrow> '','' @ dec n)"

definition render_header :: "hunk \<Rightarrow> string" where
  "render_header h =
     ''@@ -'' @ render_range (oldStart h) (oldLen h) @
     '' +'' @ render_range (newStart h) (newLen h) @ '' @@'' @ heading h"

fun render_line :: "tag \<times> string \<Rightarrow> string" where
  "render_line (Context, t) = CHR '' '' # t"
| "render_line (Added, t) = CHR ''+'' # t"
| "render_line (Removed, t) = CHR ''-'' # t"

definition render_hunk :: "hunk \<Rightarrow> string list" where
  "render_hunk h = render_header h # map render_line (body h)"

definition render_markers :: "(string \<times> string) option \<Rightarrow> string list" where
  "render_markers m = (case m of None \<Rightarrow> [] | Some (a, b) \<Rightarrow> [''--- '' @ a, ''+++ '' @ b])"

definition render_lines :: "udiff \<Rightarrow> string list" where
  "render_lines d = render_markers (file_markers d) @ concat (map render_hunk (hunks d))"

fun join_nl :: "string list \<Rightarrow> string" where
  "join_nl [] = []"
| "join_nl [l] = l"
| "join_nl (l # ls) = l @ CHR ''\<newline>'' # join_nl ls"

definition render :: "udiff \<Rightarrow> string" where
  "render d = join_nl (render_lines d)"

text \<open>
  The new-file line number of every line of the text, in the order of \<open>render_lines\<close>:
  \<open>None\<close> for file markers, hunk headers and removed lines.
\<close>

fun number_body :: "int \<Rightarrow> (tag \<times> string) list \<Rightarrow> int option list" where
  "number_body n [] = []"
| "number_body n ((Removed, t) # ls) = None # number_body n ls"
| "number_body n ((Context, t) # ls) = Some n # number_body (n + 1) ls"
| "number_body n ((Added, t) # ls) = Some n # number_body (n + 1) ls"

definition number_hunk :: "hunk \<Rightarrow> int option list" where
  "number_hunk h = None # number_body (int (newStart h)) (body h)"

definition new_line_numbers :: "udiff \<Rightarrow> int option list" where
  "new_line_numbers d =
     map (\<lambda>l. None) (render_markers (file_markers d)) @ concat (map number_hunk (hunks d))"

text \<open>The new-file line number of the line at the 1-based position \<open>p\<close> of the text.\<close>

definition new_line_at :: "udiff \<Rightarrow> nat \<Rightarrow> int option" where
  "new_line_at d p =
     (if 1 \<le> p \<and> p \<le> length (new_line_numbers d) then new_line_numbers d ! (p - 1) else None)"

text \<open>
  A valid diff: every header states the number of old-file and new-file lines of its hunk
  (an omitted length stands for 1), no text contains a newline, and the hunks follow each
  other without overlap in the new file.
\<close>

definition count_new :: "(tag \<times> string) list \<Rightarrow> nat" where
  "count_new b = length (filter (\<lambda>l. fst l \<noteq> Removed) b)"

definition count_old :: "(tag \<times> string) list \<Rightarrow> nat" where
  "count_old b = length (filter (\<lambda>l. fst l \<noteq> Added) b)"

definition len_ok :: "nat option \<Rightarrow> nat \<Rightarrow> bool" where
  "len_ok l n = (case l of None \<Rightarrow> n = 1 | Some m \<Rightarrow> m = n)"

definition no_nl :: "string \<Rightarrow> bool" where
  "no_nl s = (CHR ''\<newline>'' \<notin> set s)"

definition valid_hunk :: "hunk \<Rightarrow> bool" where
  "valid_hunk h =
     (len_ok (oldLen h) (count_old (body h)) \<and> len_ok (newLen h) (count_new (body h)) \<and>
      no_nl (heading h) \<and> list_all (\<lambda>l. no_nl (snd l)) (body h))"

fun ascending :: "hunk list \<Rightarrow> bool" where
  "ascending [] = True"
| "ascending (h # hs) =
     (list_all (\<lambda>h'. newStart h + count_new (body h) \<le> newStart h') hs \<and> ascending hs)"

definition valid_udiff :: "udiff \<Rightarrow> bool" where
  "valid_udiff d =
     ((case file_markers d of None \<Rightarrow> True | Some (a, b) \<Rightarrow> no_nl a \<and> no_nl b) \<and>
      list_all valid_hunk (hunks d) \<and> ascending (hunks d))"

text \<open>No added line whose own text begins with \<^verbatim>\<open>++\<close> (its diff line would begin with \<^verbatim>\<open>+++\<close>).\<close>

definition plain_body :: "(tag \<times> string) list \<Rightarrow> bool" where
  "plain_body b = list_all (\<lambda>l. fst l = Added \<longrightarrow> \<not> startsWith (snd l) ''++'') b"

definition plain_added :: "udiff \<Rightarrow> bool" where
  "plain_added d = list_all (\<lambda>h. plain_body (body h)) (hunks d)"

section \<open>Correctness of the locator\<close>

subsection \<open>Strings, numerals and the header pattern\<close>

lemma startsWith_append [simp]: "startsWith (p @ r) p"
  by (induction p) auto

lemma startsWith_iff: "startsWith s p \<longleftrightarrow> (\<exists>r. s = p @ r)"
  by (induction s p rule: startsWith.induct) auto

lemma expect_append [simp]: "expect p (p @ r) = Some r"
  by (induction p) auto


lemma is_digit_digit_char: "d < 10 \<Longrightarrow> is_digit (digit_char d)"
  by (simp add: is_digit_def digit_char_def)

lemma digit_val_digit_char: "d < 10 \<Longrightarrow> digit_val (digit_char d) = int d"
  by (simp add: digit_val_def digit_char_def)

lemma dec_not_Nil [simp]: "dec n \<noteq> []"
  by (subst dec.simps) simp

lemma dec_digits: "c \<in> set (dec n) \<Longrightarrow> is_digit c"
proof (induction n arbitrary: c rule: dec.induct)
  case (1 n)
  then show ?case
    by (subst (asm) (2) dec.simps) (auto simp: is_digit_digit_char split: if_splits)
qed

lemma parseInt_snoc: "parseInt (ds @ [c]) = 10 * parseInt ds + digit_val c"
  by (simp add: parseInt_def)

lemma parseInt_dec [simp]: "parseInt (dec n) = int n"
proof (induction n rule: dec.induct)
  case (1 n)
  show ?case
  proof (cases "n < 10")
    case True
    then show ?thesis
      by (subst dec.simps) (simp add: parseInt_def digit_val_digit_char)
  next
    case False
    with 1 have "parseInt (dec (n div 10)) = int (n div 10)" by simp
    moreover have "10 * int (n div 10) + int (n mod 10) = int n"
      by presburger
    ultimately show ?thesis using False
      by (subst dec.simps) (simp add: parseInt_snoc digit_val_digit_char)
  qed
qed

lemma takeWhile_dec:
  "(r = [] \<or> \<not> is_digit (hd r)) \<Longrightarrow> takeWhile is_digit (dec n @ r) = dec n"
  by (cases r) (auto simp: dec_digits takeWhile_eq_all_conv[THEN iffD2])

lemma dropWhile_dec:
  "(r = [] \<or> \<not> is_digit (hd r)) \<Longrightarrow> dropWhile is_digit (dec n @ r) = r"
  by (cases r) (auto simp: dec_digits dropWhile_eq_Nil_conv[THEN iffD2])

lemma digits1_dec:
  "(r = [] \<or> \<not> is_digit (hd r)) \<Longrightarrow> digits1 (dec n @ r) = Some (dec n, r)"
  by (simp add: digits1_def takeWhile_dec dropWhile_dec)

lemma not_digit_cases [simp]:
  "\<not> is_digit CHR '' ''" "\<not> is_digit CHR '',''"
  by (simp_all add: is_digit_def)

lemma digits1_no_digit: "\<not> is_digit c \<Longrightarrow> digits1 (c # r) = None"
  by (simp add: digits1_def)

lemma opt_len_render:
  "opt_len ((case l of None \<Rightarrow> [] | Some n \<Rightarrow> '','' @ dec n) @ CHR '' '' # r) = CHR '' '' # r"
  by (cases l) (simp_all add: opt_len_def digits1_dec)

lemma hunk_header_at_render: "hunk_header_at (render_header h) = Some (dec (newStart h))"
proof -
  let ?t2 = "(case newLen h of None \<Rightarrow> [] | Some n \<Rightarrow> '','' @ dec n) @ '' @@'' @ heading h"
  let ?t1 = "(case oldLen h of None \<Rightarrow> [] | Some n \<Rightarrow> '','' @ dec n) @ '' +'' @ dec (newStart h) @ ?t2"
  have a: "render_header h = ''@@ -'' @ dec (oldStart h) @ ?t1"
    by (simp add: render_header_def render_range_def)
  have d1: "digits1 (dec (oldStart h) @ ?t1) = Some (dec (oldStart h), ?t1)"
    by (rule digits1_dec) (cases "oldLen h"; simp)
  have o1: "opt_len ?t1 = '' +'' @ dec (newStart h) @ ?t2"
    using opt_len_render [of "oldLen h" "''+'' @ dec (newStart h) @ ?t2"] by simp
  have d2: "digits1 (dec (newStart h) @ ?t2) = Some (dec (newStart h), ?t2)"
    by (rule digits1_dec) (cases "newLen h"; simp)
  have o2: "opt_len ?t2 = '' @@'' @ heading h"
    using opt_len_render [of "newLen h" "''@@'' @ heading h"] by simp
  have e1: "expect ''@@ -'' (''@@ -'' @ dec (oldStart h) @ ?t1) = Some (dec (oldStart h) @ ?t1)"
    by (rule expect_append)
  have e2: "expect '' +'' ('' +'' @ dec (newStart h) @ ?t2) = Some (dec (newStart h) @ ?t2)"
    by (rule expect_append)
  have e3: "expect '' @@'' ('' @@'' @ heading h) = Some (heading h)"
    by (rule expect_append)
  show ?thesis
    unfolding hunk_header_at_def a e1 option.case d1 prod.case o1 e2 d2 o2 e3 ..
qed

lemma render_header_Cons: "\<exists>r. render_header h = CHR ''@'' # CHR ''@'' # r"
  by (simp add: render_header_def)

lemma hunk_header_match_render:
  "hunk_header_match (render_header h) = Some (dec (newStart h))"
proof -
  obtain r where r: "render_header h = CHR ''@'' # CHR ''@'' # r"
    using render_header_Cons by blast
  have "hunk_header_at (CHR ''@'' # CHR ''@'' # r) = Some (dec (newStart h))"
    using hunk_header_at_render [of h] r by simp
  then show ?thesis by (simp add: r)
qed

lemma startsWith_render_header: "startsWith (render_header h) ''@@''"
  using render_header_Cons [of h] by auto

lemma scan_header:
  "scan (render_header h # rest) i lc L = scan rest (i + 1) (int (newStart h) - 1) L"
  by (simp add: startsWith_render_header hunk_header_match_render)

subsection \<open>The scan over the lines of a hunk\<close>

lemma count_new_simps [simp]:
  "count_new [] = 0"
  "count_new ((Context, s) # b) = Suc (count_new b)"
  "count_new ((Added, s) # b) = Suc (count_new b)"
  "count_new ((Removed, s) # b) = count_new b"
  by (simp_all add: count_new_def)

lemma number_body_set:
  "Some L \<in> set (number_body n b) \<longleftrightarrow> n \<le> L \<and> L < n + int (count_new b)"
  by (induction n b rule: number_body.induct) auto

lemma length_number_body [simp]: "length (number_body n b) = length b"
  by (induction n b rule: number_body.induct) auto

lemma scan_removed:
  "lc \<noteq> L \<Longrightarrow> scan ((CHR ''-'' # t) # rest) i lc L = scan rest (i + 1) lc L"
  by simp

lemma scan_context:
  "scan ((CHR '' '' # t) # rest) i lc L =
     (if lc + 1 = L then Some (i + 1) else scan rest (i + 1) (lc + 1) L)"
  by simp

lemma scan_added:
  "\<not> startsWith t ''++'' \<Longrightarrow>
   scan ((CHR ''+'' # t) # rest) i lc L =
     (if lc + 1 = L then Some (i + 1) else scan rest (i + 1) (lc + 1) L)"
  by simp

lemma scan_body_skip:
  "plain_body b \<Longrightarrow> lc + int (count_new b) < L \<Longrightarrow>
   scan (map render_line b @ rest) i lc L = scan rest (i + length b) (lc + int (count_new b)) L"
proof (induction b arbitrary: i lc)
  case Nil
  then show ?case by simp
next
  case (Cons l b)
  obtain t s where l: "l = (t, s)" by (cases l)
  from Cons.prems have pb: "plain_body b" by (simp add: plain_body_def)
  show ?case
  proof (cases t)
    case Context
    with Cons.prems have "lc + 1 + int (count_new b) < L" by (simp add: l)
    with Cons.IH [OF pb, of "lc + 1" "i + 1"] show ?thesis
      by (simp add: l Context scan_context add.assoc del: scan.simps)
  next
    case Added
    with Cons.prems have ns: "\<not> startsWith s ''++''" by (simp add: l plain_body_def)
    from Added Cons.prems have "lc + 1 + int (count_new b) < L" by (simp add: l)
    with Cons.IH [OF pb, of "lc + 1" "i + 1"] show ?thesis
      by (simp add: l Added scan_added [OF ns] add.assoc del: scan.simps)
  next
    case Removed
    with Cons.prems have lt: "lc + int (count_new b) < L" by (simp add: l)
    then have "lc \<noteq> L" by simp
    with Cons.IH [OF pb lt, of "i + 1"] show ?thesis
      by (simp add: l Removed scan_removed del: scan.simps)
  qed
qed

lemma scan_body_hit:
  "plain_body b \<Longrightarrow> lc < L \<Longrightarrow> L \<le> lc + int (count_new b) \<Longrightarrow>
   \<exists>k < length b. scan (map render_line b @ rest) i lc L = Some (i + k + 1) \<and>
       number_body (lc + 1) b ! k = Some L"
proof (induction b arbitrary: i lc)
  case Nil
  then show ?case by simp
next
  case (Cons l b)
  obtain t s where l: "l = (t, s)" by (cases l)
  from Cons.prems have pb: "plain_body b" by (simp add: plain_body_def)
  have counted: ?case
    if sc: "scan (render_line l # map render_line b @ rest) i lc L =
              (if lc + 1 = L then Some (i + 1)
               else scan (map render_line b @ rest) (i + 1) (lc + 1) L)"
      and nb: "number_body (lc + 1) (l # b) = Some (lc + 1) # number_body (lc + 1 + 1) b"
      and cn: "count_new (l # b) = Suc (count_new b)"
  proof (cases "lc + 1 = L")
    case True
    with sc nb show ?thesis by (intro exI [of _ 0]) simp
  next
    case False
    with Cons.prems cn have "lc + 1 < L" "L \<le> lc + 1 + int (count_new b)" by simp_all
    from Cons.IH [OF pb this, of "i + 1"] obtain k where
      k: "k < length b" "scan (map render_line b @ rest) (i + 1) (lc + 1) L = Some (i + 1 + k + 1)"
         "number_body (lc + 1 + 1) b ! k = Some L" by blast
    with sc nb False show ?thesis by (intro exI [of _ "Suc k"]) simp
  qed
  show ?case
  proof (cases t)
    case Context
    show ?thesis
      by (rule counted) (simp_all add: l Context scan_context del: scan.simps)
  next
    case Added
    with Cons.prems have ns: "\<not> startsWith s ''++''" by (simp add: l plain_body_def)
    show ?thesis
      by (rule counted) (simp_all add: l Added scan_added [OF ns] del: scan.simps)
  next
    case Removed
    from Cons.prems have "lc \<noteq> L" by simp
    then have sc: "scan (render_line l # map render_line b @ rest) i lc L =
        scan (map render_line b @ rest) (i + 1) lc L"
      by (simp add: l Removed scan_removed del: scan.simps)
    from Cons.prems have "L \<le> lc + int (count_new b)" by (simp add: l Removed)
    from Cons.IH [OF pb Cons.prems(2) this, of "i + 1"] obtain k where
      k: "k < length b" "scan (map render_line b @ rest) (i + 1) lc L = Some (i + 1 + k + 1)"
         "number_body (lc + 1) b ! k = Some L" by blast
    with sc show ?thesis by (intro exI [of _ "Suc k"]) (simp add: l Removed)
  qed
qed

subsection \<open>The scan over a sequence of hunks\<close>

lemma length_render_hunk [simp]: "length (render_hunk h) = Suc (length (body h))"
  by (simp add: render_hunk_def)

lemma length_number_hunk [simp]: "length (number_hunk h) = Suc (length (body h))"
  by (simp add: number_hunk_def)

lemma number_hunk_set:
  "Some L \<in> set (number_hunk h) \<longleftrightarrow>
     int (newStart h) \<le> L \<and> L < int (newStart h) + int (count_new (body h))"
  by (simp add: number_hunk_def number_body_set)

lemma scan_hunk_hit:
  assumes "plain_body (body h)" and "Some L \<in> set (number_hunk h)"
  shows "\<exists>k < length (number_hunk h).
           scan (render_hunk h @ rest) i lc L = Some (i + k + 1) \<and> number_hunk h ! k = Some L"
proof -
  from assms(2) have "int (newStart h) - 1 < L" "L \<le> int (newStart h) - 1 + int (count_new (body h))"
    by (simp_all add: number_hunk_set)
  from scan_body_hit [OF assms(1) this, of rest "i + 1"] obtain k where
    k: "k < length (body h)"
       "scan (map render_line (body h) @ rest) (i + 1) (int (newStart h) - 1) L = Some (i + 1 + k + 1)"
       "number_body (int (newStart h) - 1 + 1) (body h) ! k = Some L" by blast
  show ?thesis
    using k by (intro exI [of _ "Suc k"]) (simp add: render_hunk_def number_hunk_def scan_header del: scan.simps)
qed

lemma scan_hunk_skip:
  assumes "plain_body (body h)" and "int (newStart h) + int (count_new (body h)) \<le> L"
  shows "scan (render_hunk h @ rest) i lc L =
           scan rest (i + length (render_hunk h)) (int (newStart h) - 1 + int (count_new (body h))) L"
proof -
  from assms(2) have "int (newStart h) - 1 + int (count_new (body h)) < L" by simp
  from scan_body_skip [OF assms(1) this, of rest "i + 1"] show ?thesis
    by (simp add: render_hunk_def scan_header del: scan.simps)
qed

lemma ascending_later:
  "ascending (h # hs) \<Longrightarrow> Some L \<in> set (concat (map number_hunk hs)) \<Longrightarrow>
   int (newStart h) + int (count_new (body h)) \<le> L"
  by (fastforce simp: list_all_iff number_hunk_set)

lemma scan_hunks:
  assumes "list_all (\<lambda>h. plain_body (body h)) hs" and "ascending hs"
    and "Some L \<in> set (concat (map number_hunk hs))"
  shows "\<exists>k < length (concat (map number_hunk hs)).
           scan (concat (map render_hunk hs) @ rest) i lc L = Some (i + k + 1) \<and>
           concat (map number_hunk hs) ! k = Some L"
  using assms
proof (induction hs arbitrary: i lc)
  case Nil
  then show ?case by simp
next
  case (Cons h hs)
  from Cons.prems have pb: "plain_body (body h)" and pbs: "list_all (\<lambda>h. plain_body (body h)) hs"
    and asc: "ascending hs" by simp_all
  let ?ns = "concat (map number_hunk hs)"
  show ?case
  proof (cases "Some L \<in> set (number_hunk h)")
    case True
    from scan_hunk_hit [OF pb True, of "concat (map render_hunk hs) @ rest" i lc] obtain k where
      k: "k < length (number_hunk h)"
         "scan (render_hunk h @ concat (map render_hunk hs) @ rest) i lc L = Some (i + k + 1)"
         "number_hunk h ! k = Some L" by blast
    then show ?thesis
      by (intro exI [of _ k]) (simp add: nth_append del: scan.simps)
  next
    case False
    with Cons.prems(3) have later: "Some L \<in> set ?ns" by simp
    from ascending_later [OF Cons.prems(2) later]
    have le: "int (newStart h) + int (count_new (body h)) \<le> L" .
    from Cons.IH [OF pbs asc later] obtain k where
      k: "k < length ?ns"
         "scan (concat (map render_hunk hs) @ rest) (i + length (render_hunk h))
            (int (newStart h) - 1 + int (count_new (body h))) L = Some (i + length (render_hunk h) + k + 1)"
         "?ns ! k = Some L" by blast
    have "scan (concat (map render_hunk (h # hs)) @ rest) i lc L =
            Some (i + (length (number_hunk h) + k) + 1)"
      using scan_hunk_skip [OF pb le, of "concat (map render_hunk hs) @ rest" i lc] k(2)
      by (simp del: scan.simps)
    moreover have "concat (map number_hunk (h # hs)) ! (length (number_hunk h) + k) = Some L"
      using k(3) by (simp add: nth_append del: length_number_hunk)
    moreover have "length (number_hunk h) + k < length (concat (map number_hunk (h # hs)))"
      using k(1) by simp
    ultimately show ?thesis by blast
  qed
qed

lemma scan_markers:
  "scan (render_markers m @ rest) i lc L = scan rest (i + length (render_markers m)) lc L"
  by (cases m) (auto simp: render_markers_def)

lemma scan_render_lines:
  assumes "plain_added d" and "ascending (hunks d)" and "Some L \<in> set (new_line_numbers d)"
  shows "\<exists>p. scan (render_lines d) 0 0 L = Some p \<and> new_line_at d p = Some L"
proof -
  let ?m = "render_markers (file_markers d)"
  let ?ns = "concat (map number_hunk (hunks d))"
  from assms(3) have "Some L \<in> set ?ns" by (auto simp: new_line_numbers_def)
  from scan_hunks [OF assms(1) [unfolded plain_added_def] assms(2) this, of "[]" "length ?m" 0]
  obtain k where k: "k < length ?ns"
      "scan (concat (map render_hunk (hunks d))) (length ?m) 0 L = Some (length ?m + k + 1)"
      "?ns ! k = Some L" by auto
  have "scan (render_lines d) 0 0 L = Some (length ?m + k + 1)"
    using k(2) scan_markers [of "file_markers d" "concat (map render_hunk (hunks d))" 0 0 L]
    by (simp add: render_lines_def del: scan.simps)
  moreover have "new_line_at d (length ?m + k + 1) = Some L"
    using k(1,3) by (simp add: new_line_at_def new_line_numbers_def nth_append)
  ultimately show ?thesis by blast
qed

subsection \<open>Splitting the text of a diff\<close>

lemma split_nl_no_nl: "no_nl l \<Longrightarrow> split_nl l = [l]"
  by (induction l) (auto simp: no_nl_def)

lemma split_nl_append:
  "no_nl l \<Longrightarrow> split_nl (l @ CHR ''\<newline>'' # r) = l # split_nl r"
  by (induction l) (auto simp: no_nl_def)

lemma split_join:
  "ls \<noteq> [] \<Longrightarrow> list_all no_nl ls \<Longrightarrow> split_nl (join_nl ls) = ls"
  by (induction ls rule: join_nl.induct) (simp_all add: split_nl_no_nl split_nl_append)

lemma join_nl_not_Nil: "l \<in> set ls \<Longrightarrow> l \<noteq> [] \<Longrightarrow> join_nl ls \<noteq> []"
  by (induction ls rule: join_nl.induct) auto

lemma no_nl_dec: "no_nl (dec n)"
  using dec_digits [of "CHR ''\<newline>''" n] by (auto simp: no_nl_def is_digit_def)

lemma no_nl_append [simp]: "no_nl (a @ b) \<longleftrightarrow> no_nl a \<and> no_nl b"
  by (auto simp: no_nl_def)

lemma no_nl_Cons [simp]: "no_nl (c # b) \<longleftrightarrow> c \<noteq> CHR ''\<newline>'' \<and> no_nl b"
  by (auto simp: no_nl_def)

lemma no_nl_Nil [simp]: "no_nl []"
  by (simp add: no_nl_def)

lemma no_nl_render_header: "no_nl (heading h) \<Longrightarrow> no_nl (render_header h)"
  by (simp add: render_header_def render_range_def no_nl_dec split: option.split)

lemma no_nl_render_line: "no_nl (snd l) \<Longrightarrow> no_nl (render_line l)"
  by (cases l rule: render_line.cases) simp_all

lemma no_nl_render_hunk: "valid_hunk h \<Longrightarrow> list_all no_nl (render_hunk h)"
  by (simp add: valid_hunk_def render_hunk_def no_nl_render_header list_all_iff no_nl_render_line)

lemma no_nl_render_hunk_mem: "valid_hunk h \<Longrightarrow> l \<in> set (render_hunk h) \<Longrightarrow> no_nl l"
  using no_nl_render_hunk [of h] by (simp add: list_all_iff)

lemma no_nl_render_lines: "valid_udiff d \<Longrightarrow> list_all no_nl (render_lines d)"
  by (auto simp: valid_udiff_def render_lines_def render_markers_def list_all_iff
      intro: no_nl_render_hunk_mem split: option.splits)

lemma render_header_in_lines: "h \<in> set (hunks d) \<Longrightarrow> render_header h \<in> set (render_lines d)"
  by (auto simp: render_lines_def render_hunk_def)

lemma render_header_not_Nil: "render_header h \<noteq> []"
  by (simp add: render_header_def)

lemma findPosition_render:
  assumes "valid_udiff d" and "hunks d \<noteq> []"
  shows "findPosition (render d) L = scan (render_lines d) 0 0 L"
proof -
  from assms(2) obtain h where h: "h \<in> set (hunks d)" by (cases "hunks d") auto
  then have in_lines: "render_header h \<in> set (render_lines d)" by (rule render_header_in_lines)
  then have "render d \<noteq> []"
    unfolding render_def by (rule join_nl_not_Nil) (rule render_header_not_Nil)
  moreover from in_lines have "render_lines d \<noteq> []" by auto
  then have "split_nl (render d) = render_lines d"
    unfolding render_def using no_nl_render_lines [OF assms(1)] by (rule split_join)
  ultimately show ?thesis by (simp add: findPosition_def)
qed

lemma nth_append3_cases:
  assumes "(a @ b @ c) ! k = v" and "k < length (a @ b @ c)"
  obtains "k < length a" "a ! k = v"
    | j where "j < length b" "b ! j = v"
    | j where "k = length a + length b + j" "c ! j = v"
proof -
  consider "k < length a" | "length a \<le> k" "k < length a + length b" | "length a + length b \<le> k"
    by linarith
  then show ?thesis
  proof cases
    case 1
    with assms(1) that(1) show ?thesis by (simp add: nth_append)
  next
    case 2
    then have "k - length a < length b" by linarith
    with 2 have "(a @ b @ c) ! k = b ! (k - length a)" by (simp add: nth_append)
    with assms(1) \<open>k - length a < length b\<close> that(2) [of "k - length a"] show ?thesis by simp
  next
    case 3
    then have "\<not> k < length a" "\<not> k - length a < length b" by linarith+
    then have "(a @ b @ c) ! k = c ! (k - length a - length b)" by (simp add: nth_append)
    with assms(1) 3 that(3) [of "k - length a - length b"] show ?thesis by simp
  qed
qed

text \<open>
  The scan on the text of a valid diff without added lines that look like file markers:
  a target that is the new-file number of some line is found, at a line with that number.
  This is a statement about the integers of the model, which are the numbers of the source
  as long as the line numbers stay below \<open>2^53\<close>.
\<close>

lemma locate_valid:
  assumes "valid_udiff d" and "plain_added d" and "Some L \<in> set (new_line_numbers d)"
  shows "\<exists>p. findPosition (render d) L = Some p \<and> new_line_at d p = Some L"
proof -
  from assms(3) have "hunks d \<noteq> []" by (auto simp: new_line_numbers_def)
  from findPosition_render [OF assms(1) this] 
    scan_render_lines [OF assms(2) _ assms(3)] assms(1)
  show ?thesis by (simp add: valid_udiff_def)
qed

subsection \<open>Example diffs\<close>

text \<open>
  Two hunks with the headers \<^verbatim>\<open>@@ -1,3 +1,3 @@\<close> and \<^verbatim>\<open>@@ -10,2 +12,4 @@\<close>; the text has
  ten lines and new-file line 13 is at position 8.
\<close>

definition two_hunk_diff :: udiff where
  "two_hunk_diff =
     \<lparr>file_markers = None,
      hunks =
        [\<lparr>oldStart = 1, oldLen = Some 3, newStart = 1, newLen = Some 3, heading = [],
          body = [(Context, ''a''), (Removed, ''b''), (Added, ''B''), (Context, ''c'')]\<rparr>,
         \<lparr>oldStart = 10, oldLen = Some 2, newStart = 12, newLen = Some 4, heading = [],
          body = [(Context, ''j''), (Added, ''k''), (Added, ''l''), (Context, ''m'')]\<rparr>]\<rparr>"

text \<open>
  The line \<^verbatim>\<open>++i;\<close> inserted between the lines \<^verbatim>\<open>a\<close> and \<^verbatim>\<open>b\<close>: its diff line is
  \<^verbatim>\<open>+++i;\<close>. The text is \<^verbatim>\<open>@@ -1,2 +1,3 @@\<close>, \<^verbatim>\<open> a\<close>, \<^verbatim>\<open>+++i;\<close>, \<^verbatim>\<open> b\<close>.
\<close>

definition plus_plus_diff :: udiff where
  "plus_plus_diff =
     \<lparr>file_markers = None,
      hunks =
        [\<lparr>oldStart = 1, oldLen = Some 2, newStart = 1, newLen = Some 3, heading = [],
          body = [(Context, ''a''), (Added, ''++i;''), (Context, ''b'')]\<rparr>]\<rparr>"

text \<open>
  The deletion of line 5 of the old file, without context lines: the text is
  \<^verbatim>\<open>@@ -5 +4,0 @@\<close>, \<^verbatim>\<open>-old\<close> and no line of it is a line of the new file.
\<close>

definition deletion_diff :: udiff where
  "deletion_diff =
     \<lparr>file_markers = None,
      hunks =
        [\<lparr>oldStart = 5, oldLen = None, newStart = 4, newLen = Some 0, heading = [],
          body = [(Removed, ''old'')]\<rparr>]\<rparr>"

subsection \<open>Claims about the locator\<close>

text \<open>
  Claim C1: for every valid unified diff and every target \<open>L\<close> that is the new-file
  number of an added or context line, the locator returns a position whose line has
  new-file number \<open>L\<close>. The source counts every added line except one whose own text
  begins with \<^verbatim>\<open>++\<close>: its diff line begins with \<^verbatim>\<open>+++\<close>, and the prefix test that is meant
  for the file markers skips it. In \<open>plus_plus_diff\<close>, a valid diff, new-file line 2 is the
  added line \<^verbatim>\<open>++i;\<close> at position 3; the scan does not count it and returns position 4,
  the line of new-file line 3.
\<close>

theorem C1_added_line_taken_for_marker:
  "valid_udiff plus_plus_diff \<and>
   render plus_plus_diff = ''@@ -1,2 +1,3 @@\<newline> a\<newline>+++i;\<newline> b'' \<and>
   Some 2 \<in> set (new_line_numbers plus_plus_diff) \<and>
   new_line_at plus_plus_diff 3 = Some 2 \<and>
   findPosition (render plus_plus_diff) 2 = Some 4 \<and>
   new_line_at plus_plus_diff 4 = Some 3"
  by code_simp

text \<open>
  Claim C2: a removed line is never returned as the matched position, for any target.
  The scan compares the counter with the target on removed lines too (only the increment
  is skipped), so a removed line that directly follows a hunk header is returned for the
  target \<open>newStart - 1\<close>. In the diff \<^verbatim>\<open>@@ -5 +4,0 @@\<close>, \<^verbatim>\<open>-old\<close>, which deletes line 5 of
  the old file, the target 3 is no new-file line of the diff, and the locator returns
  position 2, the removed line.
\<close>

theorem C2_removed_line_returned:
  "valid_udiff deletion_diff \<and>
   render deletion_diff = ''@@ -5 +4,0 @@\<newline>-old'' \<and>
   split_nl ''@@ -5 +4,0 @@\<newline>-old'' = [''@@ -5 +4,0 @@'', ''-old''] \<and>
   new_line_numbers deletion_diff = [None, None] \<and>
   findPosition ''@@ -5 +4,0 @@\<newline>-old'' 3 = Some 2"
  by code_simp

text \<open>
  Claim C9: in a diff of the two hunks \<^verbatim>\<open>@@ -1,3 +1,3 @@\<close> and \<^verbatim>\<open>@@ -10,2 +12,4 @@\<close>, the
  target 13 is found after the header line of the second hunk, at a line of new-file
  number 13 (the counter restarts from \<open>newStart - 1 = 11\<close> at that header). The position
  of the second header is the number of marker lines, plus the lines of the first hunk,
  plus one.
\<close>

theorem C9_second_hunk:
  assumes d: "hunks d = [h1, h2]"
    and h1: "oldStart h1 = 1" "oldLen h1 = Some 3" "newStart h1 = 1" "newLen h1 = Some 3"
    and h2: "oldStart h2 = 10" "oldLen h2 = Some 2" "newStart h2 = 12" "newLen h2 = Some 4"
    and v: "valid_udiff d" and pl: "plain_added d"
  shows "\<exists>p. findPosition (render d) 13 = Some p \<and> new_line_at d p = Some 13 \<and>
             length (render_markers (file_markers d)) + length (render_hunk h1) + 1 < p \<and>
             p \<le> length (render_lines d)"
proof -
  let ?m = "map (\<lambda>l. None :: int option) (render_markers (file_markers d))"
  from v d have "valid_hunk h1" "valid_hunk h2" by (simp_all add: valid_udiff_def)
  with h1 h2 have c1: "count_new (body h1) = 3" and c2: "count_new (body h2) = 4"
    by (simp_all add: valid_hunk_def len_ok_def)
  have ns: "new_line_numbers d = ?m @ number_hunk h1 @ number_hunk h2"
    by (simp add: new_line_numbers_def d)
  have "Some 13 \<in> set (number_hunk h2)"
    by (simp add: number_hunk_set h2 c2)
  then have "Some 13 \<in> set (new_line_numbers d)" by (simp add: ns)
  from locate_valid [OF v pl this] obtain p where
    p: "findPosition (render d) 13 = Some p" "new_line_at d p = Some 13" by blast
  from p(2) have range: "1 \<le> p" "p \<le> length (new_line_numbers d)"
    and nth: "new_line_numbers d ! (p - 1) = Some 13"
    by (simp_all add: new_line_at_def split: if_splits)
  have not1: "Some 13 \<notin> set (number_hunk h1)"
    by (simp add: number_hunk_set h1 c1)
  from nth range ns
  have "(?m @ number_hunk h1 @ number_hunk h2) ! (p - 1) = Some 13"
    and "p - 1 < length (?m @ number_hunk h1 @ number_hunk h2)" by simp_all
  then consider "p - 1 < length ?m" "?m ! (p - 1) = Some 13"
    | j where "j < length (number_hunk h1)" "number_hunk h1 ! j = Some 13"
    | j where "p - 1 = length ?m + length (number_hunk h1) + j" "number_hunk h2 ! j = Some 13"
    by (rule nth_append3_cases)
  then have after: "length ?m + length (number_hunk h1) < p - 1"
  proof cases
    case 1
    then show ?thesis by simp
  next
    case 2
    then have "Some 13 \<in> set (number_hunk h1)" by (metis nth_mem)
    with not1 show ?thesis by simp
  next
    case 3
    have "j \<noteq> 0"
    proof
      assume "j = 0"
      with 3(2) show False by (simp add: number_hunk_def)
    qed
    with 3(1) show ?thesis by simp
  qed
  have "length (render_lines d) = length (new_line_numbers d)"
    by (simp add: render_lines_def new_line_numbers_def d)
  with p range after show ?thesis by (intro exI [of _ p]) simp
qed

theorem C9_second_hunk_witness:
  "valid_udiff two_hunk_diff \<and> plain_added two_hunk_diff \<and>
   (\<exists>p. findPosition (render two_hunk_diff) 13 = Some p \<and>
        new_line_at two_hunk_diff p = Some 13 \<and> 6 < p \<and> p \<le> 10)"
proof -
  let ?h1 = "\<lparr>oldStart = 1, oldLen = Some 3, newStart = 1, newLen = Some 3, heading = [],
          body = [(Context, ''a''), (Removed, ''b''), (Added, ''B''), (Context, ''c'')]\<rparr>"
  let ?h2 = "\<lparr>oldStart = 10, oldLen = Some 2, newStart = 12, newLen = Some 4, heading = [],
          body = [(Context, ''j''), (Added, ''k''), (Added, ''l''), (Context, ''m'')]\<rparr>"
  have v: "valid_udiff two_hunk_diff" by code_simp
  have p: "plain_added two_hunk_diff" by code_simp
  have hs: "hunks two_hunk_diff = [?h1, ?h2]" by (simp add: two_hunk_diff_def)
  have l1: "length (render_markers (file_markers two_hunk_diff)) + length (render_hunk ?h1) + 1 = 6"
    by (simp add: two_hunk_diff_def render_markers_def)
  have l2: "length (render_lines two_hunk_diff) = 10"
    by (simp add: two_hunk_diff_def render_lines_def render_markers_def)
  from C9_second_hunk [OF hs _ _ _ _ _ _ _ _ v p] obtain q where
    q: "findPosition (render two_hunk_diff) 13 = Some q" "new_line_at two_hunk_diff q = Some 13"
       "length (render_markers (file_markers two_hunk_diff)) + length (render_hunk ?h1) + 1 < q"
       "q \<le> length (render_lines two_hunk_diff)"
    by auto
  from q(3) l1 have "6 < q" by (simp only:)
  moreover from q(4) l2 have "q \<le> 10" by (simp only:)
  ultimately show ?thesis using v p q(1,2) by blast
qed

section \<open>The change-application engine (\<^verbatim>\<open>applyChanges\<close>)\<close>

subsection \<open>\<^verbatim>\<open>String.prototype.replace\<close> with a string pattern\<close>

text \<open>
  \<open>split_at_first pat s\<close> is the search of \<^verbatim>\<open>s.replace(pat, ...)\<close> for a string \<open>pat\<close>: the
  text before and after the leftmost occurrence of \<open>pat\<close> in \<open>s\<close>, or \<open>None\<close>.
\<close>

fun split_at_first :: "string \<Rightarrow> string \<Rightarrow> (string \<times> string) option" where
  "split_at_first pat [] = (if pat = [] then Some ([], []) else None)"
| "split_at_first pat (c # cs) =
     (if startsWith (c # cs) pat then Some ([], drop (length pat) (c # cs))
      else (case split_at_first pat cs of
              None \<Rightarrow> None
            | Some (pre, post) \<Rightarrow> Some (c # pre, post)))"

text \<open>
  The replacement string of \<^verbatim>\<open>replace\<close> is a template (the abstract operation
  GetSubstitution of ECMAScript): \<^verbatim>\<open>$$\<close> stands for a dollar sign, \<^verbatim>\<open>$&\<close> for the matched
  text, \<^verbatim>\<open>$`\<close> for the text before the match and \<^verbatim>\<open>$'\<close> for the text after it. A string
  pattern has no capture groups, so \<^verbatim>\<open>$1\<close> ... \<^verbatim>\<open>$99\<close> and \<^verbatim>\<open>$<\<close> stay as they are, as does
  a dollar sign before any other character or at the end.
\<close>

fun GetSubstitution :: "string \<Rightarrow> string \<Rightarrow> string \<Rightarrow> string \<Rightarrow> string" where
  "GetSubstitution matched pre post [] = []"
| "GetSubstitution matched pre post [c] = [c]"
| "GetSubstitution matched pre post (c # c' # t) =
     (if c = CHR ''$'' then
        (if c' = CHR ''$'' then CHR ''$'' # GetSubstitution matched pre post t
         else if c' = CHR ''&'' then matched @ GetSubstitution matched pre post t
         else if c' = CHR 0x60 then pre @ GetSubstitution matched pre post t
         else if c' = CHR 0x27 then post @ GetSubstitution matched pre post t
         else c # GetSubstitution matched pre post (c' # t))
      else c # GetSubstitution matched pre post (c' # t))"

text \<open>\<^verbatim>\<open>s.replace(pat, repl)\<close> for strings \<open>pat\<close> and \<open>repl\<close>.\<close>

definition js_replace :: "string \<Rightarrow> string \<Rightarrow> string \<Rightarrow> string" where
  "js_replace s pat repl =
     (case split_at_first pat s of
        None \<Rightarrow> s
      | Some (pre, post) \<Rightarrow> pre @ GetSubstitution pat pre post repl @ post)"

subsection \<open>Changes and files\<close>

text \<open>
  A ChangeSpec of the solution object. The fields hold text, as the data model has it;
  \<open>None\<close> is a field that is missing (or \<^verbatim>\<open>null\<close>). The source tests the fields by
  truthiness: a missing field and the empty string are both falsy.
\<close>

record change =
  file' :: "string option"
  original :: "string option"
  replacement :: "string option"

definition truthy :: "string option \<Rightarrow> bool" where
  "truthy v = (case v of None \<Rightarrow> False | Some s \<Rightarrow> s \<noteq> [])"

text \<open>
  Lines 137 to 143 of \<^verbatim>\<open>applyChanges\<close>: the content written back, from the content read,
  \<^verbatim>\<open>change.original\<close> and the (truthy) \<^verbatim>\<open>change.replacement\<close>.
\<close>

definition new_content :: "string \<Rightarrow> string option \<Rightarrow> string \<Rightarrow> string" where
  "new_content content orig repl =
     (case orig of
        None \<Rightarrow> repl
      | Some pat \<Rightarrow> if pat \<noteq> [] then js_replace content pat repl else repl)"

text \<open>
  The working tree: a path names a regular file with its content, or a directory.
  \<^verbatim>\<open>fs.existsSync\<close> holds for both; \<^verbatim>\<open>fs.readFileSync\<close> of a directory throws, which
  \<^verbatim>\<open>applyChanges\<close> logs and throws again. Reading and writing a regular file succeed (other
  failures of the operating system are not part of the model). The console is the list
  of messages printed so far.
\<close>

datatype node = File string | Directory

datatype io_error = EISDIR string

datatype message =
    SkippingInvalidChange "string option"
  | FileDoesNotExist string
  | UpdatedFile string
  | ErrorUpdatingFile string

record world =
  files :: "string \<rightharpoonup> node"
  console :: "message list"

definition say :: "message \<Rightarrow> world \<Rightarrow> world" where
  "say m w = w\<lparr>console := console w @ [m]\<rparr>"

text \<open>
  \<^verbatim>\<open>applyChanges(solution)\<close> on \<^verbatim>\<open>solution.changes\<close>: the world it leaves, and the error it
  throws, if any.
\<close>

fun applyChanges :: "change list \<Rightarrow> world \<Rightarrow> world \<times> io_error option" where
  "applyChanges [] w = (w, None)"
| "applyChanges (ch # rest) w =
     (if \<not> truthy (file' ch) \<or> \<not> truthy (replacement ch)
      then applyChanges rest (say (SkippingInvalidChange (file' ch)) w)
      else
        (case (file' ch, replacement ch) of
           (Some filePath, Some repl) \<Rightarrow>
             (case files w filePath of
                None \<Rightarrow> applyChanges rest (say (FileDoesNotExist filePath) w)
              | Some Directory \<Rightarrow> (say (ErrorUpdatingFile filePath) w, Some (EISDIR filePath))
              | Some (File content) \<Rightarrow>
                  applyChanges rest
                    (say (UpdatedFile filePath)
                       (w\<lparr>files := (files w)(filePath \<mapsto>
                              File (new_content content (original ch) repl))\<rparr>)))
         | _ \<Rightarrow> applyChanges rest (say (SkippingInvalidChange (file' ch)) w)))"

text \<open>
  What the specification says of a change with an original: the first occurrence of the
  original is replaced by the replacement text as it is.
\<close>

definition replace_first_literally :: "string \<Rightarrow> string \<Rightarrow> string \<Rightarrow> string" where
  "replace_first_literally s pat repl =
     (case split_at_first pat s of
        None \<Rightarrow> s
      | Some (pre, post) \<Rightarrow> pre @ repl @ post)"

subsection \<open>Properties of the replacement\<close>

lemma startsWith_prefix: "startsWith s p \<longleftrightarrow> prefix p s"
  by (induction s p rule: startsWith.induct) auto

lemma split_at_first_None_iff: "split_at_first pat s = None \<longleftrightarrow> \<not> sublist pat s"
proof (induction s)
  case Nil
  then show ?case by simp
next
  case (Cons c cs)
  then show ?case
    by (auto simp: sublist_Cons_right startsWith_prefix split: option.splits)
qed


text \<open>The occurrence found is the leftmost one.\<close>

lemma split_at_first_leftmost:
  "split_at_first pat s = Some (pre, post) \<Longrightarrow> s = b @ pat @ a \<Longrightarrow> length pre \<le> length b"
proof (induction s arbitrary: pre b)
  case Nil
  then show ?case by (simp split: if_splits)
next
  case (Cons c cs)
  show ?case
  proof (cases "startsWith (c # cs) pat")
    case True
    with Cons.prems(1) have "pre = []" by simp
    then show ?thesis by simp
  next
    case False
    with Cons.prems(1) obtain pre' where pre': "split_at_first pat cs = Some (pre', post)" "pre = c # pre'"
      by (auto split: option.splits)
    from False Cons.prems(2) have "b \<noteq> []" by (auto simp: startsWith_iff)
    then obtain b' where b': "b = c # b'" using Cons.prems(2) by (cases b) auto
    with Cons.prems(2) have "cs = b' @ pat @ a" by simp
    from Cons.IH [OF pre'(1) this] pre'(2) b' show ?thesis by simp
  qed
qed

lemma GetSubstitution_plain:
  "CHR ''$'' \<notin> set repl \<Longrightarrow> GetSubstitution matched pre post repl = repl"
  by (induction matched pre post repl rule: GetSubstitution.induct) auto

text \<open>
  A replacement text without a dollar sign is inserted as it is; when the original does
  not occur, the content stays as it is.
\<close>

lemma js_replace_plain:
  "CHR ''$'' \<notin> set repl \<Longrightarrow> js_replace s pat repl = replace_first_literally s pat repl"
  by (simp add: js_replace_def replace_first_literally_def GetSubstitution_plain split: option.splits)

lemma js_replace_absent: "\<not> sublist pat s \<Longrightarrow> js_replace s pat repl = s"
  by (simp add: js_replace_def split_at_first_None_iff [symmetric])

lemma new_content_example:
  "new_content ''const x = 1;'' (Some ''x = 1'') ''x = 2'' = ''const x = 2;''"
  by code_simp

lemma new_content_no_original: "new_content content None repl = repl"
  by (simp add: new_content_def)

lemma files_say [simp]: "files (say m w) = files w"
  by (simp add: say_def)

subsection \<open>Claims about the change application\<close>

text \<open>
  Claim C3: with an original present, the first occurrence of the original is replaced by
  the replacement text, literally. The source calls \<^verbatim>\<open>content.replace(original, replacement)\<close>,
  which expands \<^verbatim>\<open>$$\<close>, \<^verbatim>\<open>$&\<close>, \<^verbatim>\<open>$`\<close> and \<^verbatim>\<open>$'\<close> in the replacement, while the sibling
  branch for a missing original assigns the replacement as it is. For the content
  \<^verbatim>\<open>const x = 1;\<close>, the original \<^verbatim>\<open>x = 1\<close> and the replacement \<^verbatim>\<open>x = '$' + y\<close>, the pair \<^verbatim>\<open>$'\<close>
  is expanded to the text after the match, \<^verbatim>\<open>;\<close>: the result is \<^verbatim>\<open>const x = '; + y;\<close> and
  not \<^verbatim>\<open>const x = '$' + y;\<close>.
\<close>

theorem C3_dollar_pattern_expanded:
  "new_content ''const x = 1;'' (Some ''x = 1'') ''x = '$' + y'' = ''const x = '; + y;'' \<and>
   replace_first_literally ''const x = 1;'' ''x = 1'' ''x = '$' + y'' = ''const x = '$' + y;''"
  by code_simp

text \<open>
  Claim C8: when the original of a change is present and does not occur in the content of
  the file, the content written back is the content read, whatever the replacement is;
  applying the change, once or twice, throws no error and leaves every file as it was.
\<close>

theorem C8_absent_original_noop:
  assumes "file' ch = Some path" and "files w path = Some (File content)"
    and "original ch = Some pat" and "pat \<noteq> []" and "\<not> sublist pat content"
  shows "new_content content (original ch) repl = content \<and>
         snd (applyChanges [ch] w) = None \<and> files (fst (applyChanges [ch] w)) = files w \<and>
         snd (applyChanges [ch, ch] w) = None \<and> files (fst (applyChanges [ch, ch] w)) = files w"
proof -
  have nc: "new_content content (original ch) r = content" for r
    using assms(3-5) by (simp add: new_content_def js_replace_absent)
  have same: "(files w)(path \<mapsto> File content) = files w"
    using assms(2) by (rule map_upd_triv)
  show ?thesis
  proof (cases "truthy (file' ch) \<and> truthy (replacement ch)")
    case False
    then show ?thesis using nc by auto
  next
    case True
    then obtain r where r: "replacement ch = Some r" by (auto simp: truthy_def split: option.splits)
    with True assms(1,2) nc [of r] same show ?thesis
      by (simp add: nc)
  qed
qed

theorem C8_absent_original_noop_witness:
  "(let ch = \<lparr>file' = Some ''a.js'', original = Some ''x = 1'', replacement = Some ''x = 2''\<rparr>;
        w = \<lparr>files = [''a.js'' \<mapsto> File ''const x = 2;''], console = []\<rparr>
    in \<not> sublist ''x = 1'' ''const x = 2;'' \<and>
       new_content ''const x = 2;'' (original ch) ''x = 2'' = ''const x = 2;'' \<and>
       snd (applyChanges [ch] w) = None \<and> files (fst (applyChanges [ch] w)) = files w \<and>
       snd (applyChanges [ch, ch] w) = None \<and> files (fst (applyChanges [ch, ch] w)) = files w)"
proof -
  let ?ch = "\<lparr>file' = Some ''a.js'', original = Some ''x = 1'', replacement = Some ''x = 2''\<rparr>"
  let ?w = "\<lparr>files = [''a.js'' \<mapsto> File ''const x = 2;''], console = []\<rparr>"
  have ns: "\<not> sublist ''x = 1'' ''const x = 2;''" by code_simp
  have "file' ?ch = Some ''a.js''" "files ?w ''a.js'' = Some (File ''const x = 2;'')"
    "original ?ch = Some ''x = 1''" "''x = 1'' \<noteq> []" by simp_all
  from C8_absent_original_noop [OF this ns, of "''x = 2''"] ns show ?thesis
    unfolding Let_def by blast
qed

text \<open>
  Claim C10: the fields of a change are tested by truthiness. A change whose replacement
  is the empty string is skipped as invalid, with a message, and no file is touched by
  it; a change whose original is the empty string is applied like the same change without
  an original: the whole content of its file becomes the replacement.
\<close>

theorem C10_truthiness:
  "(replacement ch = Some [] \<longrightarrow>
      applyChanges (ch # rest) w = applyChanges rest (say (SkippingInvalidChange (file' ch)) w) \<and>
      files (say (SkippingInvalidChange (file' ch)) w) = files w) \<and>
   (original ch = Some [] \<and> file' ch = Some path \<and> path \<noteq> [] \<and>
    replacement ch = Some repl \<and> repl \<noteq> [] \<and> files w path = Some (File content) \<longrightarrow>
      applyChanges (ch # rest) w =
        applyChanges rest (say (UpdatedFile path) (w\<lparr>files := (files w)(path \<mapsto> File repl)\<rparr>)) \<and>
      applyChanges (ch # rest) w = applyChanges (ch\<lparr>original := None\<rparr> # rest) w)"
  by (simp add: truthy_def new_content_def)

theorem C10_truthiness_witness:
  "(let skipped = \<lparr>file' = Some ''a.js'', original = Some ''x'', replacement = Some []\<rparr>;
        whole = \<lparr>file' = Some ''a.js'', original = Some [], replacement = Some ''new''\<rparr>;
        w = \<lparr>files = [''a.js'' \<mapsto> File ''old''], console = []\<rparr>
    in applyChanges [skipped] w = (say (SkippingInvalidChange (Some ''a.js'')) w, None) \<and>
       files (say (SkippingInvalidChange (Some ''a.js'')) w) = files w \<and>
       applyChanges [whole] w =
         (say (UpdatedFile ''a.js'') (w\<lparr>files := (files w)(''a.js'' \<mapsto> File ''new'')\<rparr>), None) \<and>
       applyChanges [whole] w = applyChanges [whole\<lparr>original := None\<rparr>] w)"
proof -
  let ?skipped = "\<lparr>file' = Some ''a.js'', original = Some ''x'', replacement = Some []\<rparr>"
  let ?whole = "\<lparr>file' = Some ''a.js'', original = Some [], replacement = Some ''new''\<rparr>"
  let ?w = "\<lparr>files = [''a.js'' \<mapsto> File ''old''], console = []\<rparr>"
  from C10_truthiness [of ?skipped "[]" ?w "''a.js''" "''new''" "''old''"]
  have a: "applyChanges [?skipped] ?w = (say (SkippingInvalidChange (Some ''a.js'')) ?w, None)"
    and b: "files (say (SkippingInvalidChange (Some ''a.js'')) ?w) = files ?w"
    by (simp_all del: applyChanges.simps(2) add: applyChanges.simps(1))
  from C10_truthiness [of ?whole "[]" ?w "''a.js''" "''new''" "''old''"]
  have c: "applyChanges [?whole] ?w =
         (say (UpdatedFile ''a.js'') (?w\<lparr>files := (files ?w)(''a.js'' \<mapsto> File ''new'')\<rparr>), None)"
    by (simp del: applyChanges.simps(2) add: applyChanges.simps(1))
  have d: "applyChanges [?whole] ?w = applyChanges [?whole\<lparr>original := None\<rparr>] ?w"
    by (simp add: truthy_def new_content_def)
  from a b c d show ?thesis unfolding Let_def by blast
qed

section \<open>\<^verbatim>\<open>JSON.parse\<close>\<close>

text \<open>
  Both scripts hand the text of the model to \<^verbatim>\<open>JSON.parse\<close>. Its grammar is modelled in
  full: a lexer from characters to tokens and a parser from tokens to values. A string
  value is a list of UTF-16 code units (an escape \<^verbatim>\<open>\uXXXX\<close> can name any of them); a number
  is the exact value of its numeral. \<open>None\<close> is the \<^verbatim>\<open>SyntaxError\<close> that \<^verbatim>\<open>JSON.parse\<close> throws.
\<close>

type_synonym jstring = "nat list"

definition units :: "string \<Rightarrow> jstring" where
  "units s = map of_char s"

datatype json =
    JNull
  | JBool bool
  | JNum rat
  | JStr jstring
  | JArr "json list"
  | JObj "(jstring \<times> json) list"

datatype token =
    TLBrace | TRBrace | TLBrack | TRBrack | TColon | TComma
  | TString jstring | TNumber rat | TTrue | TFalse | TNull

subsection \<open>The lexer\<close>

text \<open>JSON white space: tab, line feed, carriage return and space.\<close>

definition is_json_space :: "char \<Rightarrow> bool" where
  "is_json_space c = (of_char c \<in> {9, 10, 13, 32 :: nat})"

definition hex_val :: "char \<Rightarrow> nat option" where
  "hex_val c =
     (let n = (of_char c :: nat)
      in if 48 \<le> n \<and> n \<le> 57 then Some (n - 48)
         else if 65 \<le> n \<and> n \<le> 70 then Some (n - 55)
         else if 97 \<le> n \<and> n \<le> 102 then Some (n - 87)
         else None)"

fun hex4 :: "string \<Rightarrow> nat option" where
  "hex4 (a # b # c # d # r) =
     (case (hex_val a, hex_val b, hex_val c, hex_val d) of
        (Some x, Some y, Some z, Some w) \<Rightarrow> Some (((x * 16 + y) * 16 + z) * 16 + w)
      | _ \<Rightarrow> None)"
| "hex4 r = None"

text \<open>The character after a backslash, other than \<^verbatim>\<open>u\<close>.\<close>

definition escape_unit :: "char \<Rightarrow> nat option" where
  "escape_unit e =
     (if e = CHR 0x22 then Some 34
      else if e = CHR 0x5C then Some 92
      else if e = CHR ''/'' then Some 47
      else if e = CHR ''b'' then Some 8
      else if e = CHR ''f'' then Some 12
      else if e = CHR ''n'' then Some 10
      else if e = CHR ''r'' then Some 13
      else if e = CHR ''t'' then Some 9
      else None)"

text \<open>
  A string, after its opening quote: the code units up to the closing quote and the text
  after it. A control character (below \<open>0x20\<close>) may not stand in a string.
\<close>

fun lex_string :: "string \<Rightarrow> (jstring \<times> string) option" where
  "lex_string [] = None"
| "lex_string (c # cs) =
     (if c = CHR 0x22 then Some ([], cs)
      else if c = CHR 0x5C then
        (case cs of
           [] \<Rightarrow> None
         | e # r \<Rightarrow>
             if e = CHR ''u'' then
               (case hex4 r of
                  None \<Rightarrow> None
                | Some n \<Rightarrow>
                    (case lex_string (drop 4 r) of
                       None \<Rightarrow> None
                     | Some (us, rest) \<Rightarrow> Some (n # us, rest)))
             else
               (case escape_unit e of
                  None \<Rightarrow> None
                | Some n \<Rightarrow>
                    (case lex_string r of
                       None \<Rightarrow> None
                     | Some (us, rest) \<Rightarrow> Some (n # us, rest))))
      else if (of_char c :: nat) < 32 then None
      else
        (case lex_string cs of
           None \<Rightarrow> None
         | Some (us, rest) \<Rightarrow> Some (of_char c # us, rest)))"

text \<open>
  A number: an optional minus sign, an integer part without a leading zero, an optional
  fraction and an optional exponent.
\<close>

definition int_part :: "string \<Rightarrow> (string \<times> string) option" where
  "int_part s =
     (case s of
        [] \<Rightarrow> None
      | c # r \<Rightarrow> if c = CHR ''0'' then Some ([c], r) else digits1 s)"

definition frac_part :: "string \<Rightarrow> (string \<times> string) option" where
  "frac_part s =
     (case s of
        [] \<Rightarrow> Some ([], [])
      | c # r \<Rightarrow> if c = CHR ''.'' then digits1 r else Some ([], s))"

definition exp_part :: "string \<Rightarrow> (int \<times> string) option" where
  "exp_part s =
     (case s of
        [] \<Rightarrow> Some (0, [])
      | c # r \<Rightarrow>
          if c = CHR ''e'' \<or> c = CHR ''E'' then
            (case (case r of
                     [] \<Rightarrow> (1, r)
                   | x # r' \<Rightarrow>
                       if x = CHR ''+'' then (1, r')
                       else if x = CHR ''-'' then (- 1, r')
                       else (1, r)) of
               (sign, r1) \<Rightarrow>
                 (case digits1 r1 of
                    None \<Rightarrow> None
                  | Some (ds, r2) \<Rightarrow> Some (sign * parseInt ds, r2)))
          else Some (0, s))"

definition pow10 :: "int \<Rightarrow> rat" where
  "pow10 e = (if 0 \<le> e then 10 ^ nat e else 1 / 10 ^ nat (- e))"

definition lex_number :: "string \<Rightarrow> (rat \<times> string) option" where
  "lex_number s =
     (case (case expect ''-'' s of Some r \<Rightarrow> (- 1, r) | None \<Rightarrow> (1, s)) of
        (sign, s1) \<Rightarrow>
     (case int_part s1 of
        None \<Rightarrow> None
      | Some (ip, s2) \<Rightarrow>
     (case frac_part s2 of
        None \<Rightarrow> None
      | Some (fp, s3) \<Rightarrow>
     (case exp_part s3 of
        None \<Rightarrow> None
      | Some (e, s4) \<Rightarrow>
          Some (sign * of_int (parseInt (ip @ fp)) * pow10 (e - int (length fp)), s4)))))"

lemma expect_length: "expect p s = Some r \<Longrightarrow> length r \<le> length s"
  by (induction p s rule: expect.induct) (auto split: if_splits)

lemma digits1_length: "digits1 s = Some (ds, r) \<Longrightarrow> length r < length s"
proof -
  assume "digits1 s = Some (ds, r)"
  then have ds: "takeWhile is_digit s \<noteq> []" and r: "r = dropWhile is_digit s"
    by (auto simp: digits1_def Let_def split: if_splits)
  have "length (takeWhile is_digit s) + length (dropWhile is_digit s) = length s"
    by (metis length_append takeWhile_dropWhile_id)
  with ds r show ?thesis by (cases "takeWhile is_digit s") auto
qed

lemma lex_string_length: "lex_string s = Some (us, r) \<Longrightarrow> length r < length s"
proof (induction s arbitrary: us rule: length_induct)
  case (1 s)
  from "1.prems" obtain c cs where s: "s = c # cs" by (cases s) auto
  have IH: "length r < length ys" if "length ys < length s" "lex_string ys = Some (vs, r)" for ys vs
    using "1.IH" that by blast
  consider (quote) "c = CHR 0x22"
    | (escape) "c \<noteq> CHR 0x22" "c = CHR 0x5C"
    | (plain) "c \<noteq> CHR 0x22" "c \<noteq> CHR 0x5C" by blast
  then show ?case
  proof cases
    case quote
    with "1.prems" s show ?thesis by simp
  next
    case plain
    with "1.prems" s obtain vs where "lex_string cs = Some (vs, r)"
      by (auto split: if_splits option.splits)
    from IH [OF _ this] s show ?thesis by simp
  next
    case escape
    with "1.prems" s obtain e t where cs: "cs = e # t"
      by (cases cs) auto
    show ?thesis
    proof (cases "e = CHR ''u''")
      case True
      with "1.prems" s cs escape obtain vs where "lex_string (drop 4 t) = Some (vs, r)"
        by (auto split: option.splits)
      moreover have "length (drop 4 t) < length s" using s cs by simp
      ultimately have "length r < length (drop 4 t)" using IH by blast
      then show ?thesis using s cs by simp
    next
      case False
      with "1.prems" s cs escape obtain vs where "lex_string t = Some (vs, r)"
        by (auto split: option.splits)
      from IH [OF _ this] s cs show ?thesis by simp
    qed
  qed
qed

lemma int_part_length: "int_part s = Some (ds, r) \<Longrightarrow> length r < length s"
  by (auto simp: int_part_def split: list.splits if_splits dest: digits1_length)

lemma frac_part_length: "frac_part s = Some (ds, r) \<Longrightarrow> length r \<le> length s"
  by (auto simp: frac_part_def split: list.splits if_splits dest: digits1_length)

lemma exp_part_length: "exp_part s = Some (e, r) \<Longrightarrow> length r \<le> length s"
  by (auto simp: exp_part_def split: list.splits if_splits option.splits dest: digits1_length)

lemma lex_number_length:
  assumes "lex_number s = Some (q, r)"
  shows "length r < length s"
proof -
  from assms obtain sign s1 ip s2 fp s3 e where
    s1: "(case expect ''-'' s of Some r \<Rightarrow> (- 1 :: rat, r) | None \<Rightarrow> (1, s)) = (sign, s1)"
    and ip: "int_part s1 = Some (ip, s2)" and fp: "frac_part s2 = Some (fp, s3)"
    and e: "exp_part s3 = Some (e, r)"
    by (auto simp: lex_number_def split: prod.splits option.splits)
  from s1 have "length s1 \<le> length s"
    by (auto split: option.splits dest: expect_length)
  with int_part_length [OF ip] frac_part_length [OF fp] exp_part_length [OF e]
  show ?thesis by linarith
qed

text \<open>The token list of a text; \<open>None\<close> when some character starts no token.\<close>

function lex :: "string \<Rightarrow> token list option" where
  "lex [] = Some []"
| "lex (c # cs) =
     (if is_json_space c then lex cs
      else if c = CHR ''{'' then (case lex cs of None \<Rightarrow> None | Some ts \<Rightarrow> Some (TLBrace # ts))
      else if c = CHR ''}'' then (case lex cs of None \<Rightarrow> None | Some ts \<Rightarrow> Some (TRBrace # ts))
      else if c = CHR ''['' then (case lex cs of None \<Rightarrow> None | Some ts \<Rightarrow> Some (TLBrack # ts))
      else if c = CHR '']'' then (case lex cs of None \<Rightarrow> None | Some ts \<Rightarrow> Some (TRBrack # ts))
      else if c = CHR '':'' then (case lex cs of None \<Rightarrow> None | Some ts \<Rightarrow> Some (TColon # ts))
      else if c = CHR '','' then (case lex cs of None \<Rightarrow> None | Some ts \<Rightarrow> Some (TComma # ts))
      else if c = CHR 0x22 then
        (case lex_string cs of
           None \<Rightarrow> None
         | Some (us, rest) \<Rightarrow>
             (case lex rest of None \<Rightarrow> None | Some ts \<Rightarrow> Some (TString us # ts)))
      else if c = CHR ''-'' \<or> is_digit c then
        (case lex_number (c # cs) of
           None \<Rightarrow> None
         | Some (q, rest) \<Rightarrow>
             (case lex rest of None \<Rightarrow> None | Some ts \<Rightarrow> Some (TNumber q # ts)))
      else if c = CHR ''t'' then
        (case expect ''rue'' cs of
           None \<Rightarrow> None
         | Some rest \<Rightarrow> (case lex rest of None \<Rightarrow> None | Some ts \<Rightarrow> Some (TTrue # ts)))
      else if c = CHR ''f'' then
        (case expect ''alse'' cs of
           None \<Rightarrow> None
         | Some rest \<Rightarrow> (case lex rest of None \<Rightarrow> None | Some ts \<Rightarrow> Some (TFalse # ts)))
      else if c = CHR ''n'' then
        (case expect ''ull'' cs of
           None \<Rightarrow> None
         | Some rest \<Rightarrow> (case lex rest of None \<Rightarrow> None | Some ts \<Rightarrow> Some (TNull # ts)))
      else None)"
  by pat_completeness auto
termination
proof (relation "measure length", goal_cases)
  case 1
  show ?case by simp
next
  case (9 c cs x2 us rest)
  then have "lex_string cs = Some (us, rest)" by simp
  from lex_string_length [OF this] show ?case by simp
next
  case (10 c cs x2 q rest)
  then have "lex_number (c # cs) = Some (q, rest)" by simp
  from lex_number_length [OF this] show ?case by simp
next
  case (11 c cs rest)
  from expect_length [OF 11(11)] show ?case by simp
next
  case (12 c cs rest)
  from expect_length [OF 12(12)] show ?case by simp
next
  case (13 c cs rest)
  from expect_length [OF 13(13)] show ?case by simp
qed simp_all

subsection \<open>The parser\<close>

text \<open>
  The parser reads the tokens from left to right with a stack of the arrays and objects
  that are open. \<open>InArr xs\<close> is an array with the elements \<open>xs\<close> so far; \<open>InObj ps k\<close> is
  an object with the members \<open>ps\<close> so far, reading the value of the key \<open>k\<close>.
\<close>

datatype frame = InArr "json list" | InObj "(jstring \<times> json) list" jstring

datatype pstate =
    WantValue "frame list"
  | ArrStart "frame list"
  | AfterElem "json list" "frame list"
  | ObjStart "frame list"
  | WantKey "(jstring \<times> json) list" "frame list"
  | WantColon "(jstring \<times> json) list" jstring "frame list"
  | AfterMember "(jstring \<times> json) list" "frame list"
  | Done json

text \<open>A key that occurs again replaces the value of its first occurrence.\<close>

fun set_prop :: "(jstring \<times> json) list \<Rightarrow> jstring \<Rightarrow> json \<Rightarrow> (jstring \<times> json) list" where
  "set_prop [] k v = [(k, v)]"
| "set_prop ((k', v') # ps) k v = (if k' = k then (k, v) # ps else (k', v') # set_prop ps k v)"

text \<open>A value is complete: it goes to the innermost open array or object.\<close>

fun deliver :: "json \<Rightarrow> frame list \<Rightarrow> pstate" where
  "deliver v [] = Done v"
| "deliver v (InArr xs # st) = AfterElem (xs @ [v]) st"
| "deliver v (InObj ps k # st) = AfterMember (set_prop ps k v) st"

fun want_value :: "frame list \<Rightarrow> token \<Rightarrow> pstate option" where
  "want_value st TLBrack = Some (ArrStart st)"
| "want_value st TLBrace = Some (ObjStart st)"
| "want_value st (TString s) = Some (deliver (JStr s) st)"
| "want_value st (TNumber q) = Some (deliver (JNum q) st)"
| "want_value st TTrue = Some (deliver (JBool True) st)"
| "want_value st TFalse = Some (deliver (JBool False) st)"
| "want_value st TNull = Some (deliver JNull st)"
| "want_value st t = None"

fun step :: "pstate \<Rightarrow> token \<Rightarrow> pstate option" where
  "step (WantValue st) t = want_value st t"
| "step (ArrStart st) t =
     (if t = TRBrack then Some (deliver (JArr []) st) else want_value (InArr [] # st) t)"
| "step (AfterElem xs st) t =
     (if t = TComma then Some (WantValue (InArr xs # st))
      else if t = TRBrack then Some (deliver (JArr xs) st)
      else None)"
| "step (ObjStart st) t =
     (case t of
        TRBrace \<Rightarrow> Some (deliver (JObj []) st)
      | TString k \<Rightarrow> Some (WantColon [] k st)
      | _ \<Rightarrow> None)"
| "step (WantKey ps st) t = (case t of TString k \<Rightarrow> Some (WantColon ps k st) | _ \<Rightarrow> None)"
| "step (WantColon ps k st) t = (if t = TColon then Some (WantValue (InObj ps k # st)) else None)"
| "step (AfterMember ps st) t =
     (if t = TComma then Some (WantKey ps st)
      else if t = TRBrace then Some (deliver (JObj ps) st)
      else None)"
| "step (Done v) t = None"

fun run :: "pstate \<Rightarrow> token list \<Rightarrow> pstate option" where
  "run s [] = Some s"
| "run s (t # ts) = (case step s t of None \<Rightarrow> None | Some s' \<Rightarrow> run s' ts)"

definition JSON_parse :: "string \<Rightarrow> json option" where
  "JSON_parse text =
     (case lex text of
        None \<Rightarrow> None
      | Some ts \<Rightarrow> (case run (WantValue []) ts of Some (Done v) \<Rightarrow> Some v | _ \<Rightarrow> None))"

section \<open>The parsers of the model's answers\<close>

text \<open>
  \<^verbatim>\<open>s.trim()\<close> removes white space and line terminators at both ends: among the
  characters of the model these are tab, line feed, vertical tab, form feed, carriage
  return, space and the no-break space.
\<close>

definition is_js_space :: "char \<Rightarrow> bool" where
  "is_js_space c = (of_char c \<in> {9, 10, 11, 12, 13, 32, 160 :: nat})"

definition trim :: "string \<Rightarrow> string" where
  "trim s = rev (dropWhile is_js_space (rev (dropWhile is_js_space s)))"

subsection \<open>The review list (\<^verbatim>\<open>getReview\<close>)\<close>

text \<open>
  The test \<^verbatim>\<open>review.line > 0\<close> on a number read by \<^verbatim>\<open>JSON.parse\<close>: the number is the
  double nearest to the value of the numeral (ties to even), which is positive exactly
  when the value exceeds half of the least positive double \<open>2 ^ -1074\<close>.
\<close>

definition gt_zero :: "rat \<Rightarrow> bool" where
  "gt_zero q = (1 / 2 ^ 1075 < q)"

text \<open>What the try blocks of \<^verbatim>\<open>getReview\<close> can catch after the answer has arrived.\<close>

datatype js_error = SyntaxError | NotAnArray | TypeError

text \<open>
  The callback of \<^verbatim>\<open>reviews.filter\<close>. \<^verbatim>\<open>typeof review === 'object'\<close> holds for objects,
  arrays and \<^verbatim>\<open>null\<close>; reading \<^verbatim>\<open>review.line\<close> of \<^verbatim>\<open>null\<close> throws a \<^verbatim>\<open>TypeError\<close>; an array
  has no property \<^verbatim>\<open>line\<close>.
\<close>

fun review_ok :: "json \<Rightarrow> js_error + bool" where
  "review_ok JNull = Inl TypeError"
| "review_ok (JObj ps) =
     Inr (case (map_of ps (units ''line''), map_of ps (units ''comment'')) of
            (Some (JNum line), Some (JStr comment)) \<Rightarrow> gt_zero line \<and> 0 < length comment
          | _ \<Rightarrow> False)"
| "review_ok (JArr xs) = Inr False"
| "review_ok v = Inr False"

text \<open>\<^verbatim>\<open>reviews.filter(...)\<close>: an exception of the callback ends the filter.\<close>

fun filter_reviews :: "json list \<Rightarrow> js_error + json list" where
  "filter_reviews [] = Inr []"
| "filter_reviews (r # rs) =
     (case review_ok r of
        Inl e \<Rightarrow> Inl e
      | Inr keep \<Rightarrow>
          (case filter_reviews rs of
             Inl e \<Rightarrow> Inl e
           | Inr kept \<Rightarrow> Inr (if keep then r # kept else kept)))"

text \<open>
  Lines 61 to 86 of \<^verbatim>\<open>getReview\<close>, from the text of the answer: the value returned
  (\<open>None\<close> is \<^verbatim>\<open>null\<close>) and the warnings given to \<^verbatim>\<open>core.warning\<close>. An answer that is empty
  after trimming becomes \<^verbatim>\<open>null\<close>, which \<^verbatim>\<open>JSON.parse\<close> reads as the text \<^verbatim>\<open>null\<close>. Every
  exception is caught by the inner \<^verbatim>\<open>try\<close>, so the function has no error result.
\<close>

definition reviewText :: "string \<Rightarrow> string" where
  "reviewText answer = (if trim answer = [] then ''null'' else trim answer)"

definition getReview :: "string \<Rightarrow> json list option \<times> js_error list" where
  "getReview answer =
     (case JSON_parse (reviewText answer) of
        None \<Rightarrow> (None, [SyntaxError])
      | Some (JArr reviews) \<Rightarrow>
          (case filter_reviews reviews of
             Inl e \<Rightarrow> (None, [e])
           | Inr kept \<Rightarrow> (Some kept, []))
      | Some v \<Rightarrow> (None, [NotAnArray]))"

text \<open>The elements that the specification keeps, and its reading of the filter.\<close>

fun is_valid_review :: "json \<Rightarrow> bool" where
  "is_valid_review (JObj ps) =
     (case (map_of ps (units ''line''), map_of ps (units ''comment'')) of
        (Some (JNum line), Some (JStr comment)) \<Rightarrow> gt_zero line \<and> comment \<noteq> []
      | _ \<Rightarrow> False)"
| "is_valid_review v = False"

subsection \<open>The solution object (\<^verbatim>\<open>analyzeIssueWithKnowledgeBase\<close>)\<close>

text \<open>
  \<^verbatim>\<open>responseText.match(/```json\n([\s\S]*?)\n```/)\<close>: the whole match and group 1. The
  group is lazy, so it ends at the first \<^verbatim>\<open>\n```\<close> after the opening fence; if there is
  none after the first opening fence, there is none after a later one.
\<close>

definition match_fenced :: "string \<Rightarrow> (string \<times> string) option" where
  "match_fenced responseText =
     (case split_at_first ''```json\<newline>'' responseText of
        None \<Rightarrow> None
      | Some (pre, post) \<Rightarrow>
          (case split_at_first ''\<newline>```'' post of
             None \<Rightarrow> None
           | Some (group1, rest) \<Rightarrow> Some (''```json\<newline>'' @ group1 @ ''\<newline>```'', group1)))"

text \<open>
  \<^verbatim>\<open>responseText.match(/{[\s\S]*}/)\<close>: the whole match, from the first opening brace to
  the last closing brace after it (the star is greedy).
\<close>

definition match_braces :: "string \<Rightarrow> string option" where
  "match_braces responseText =
     (case dropWhile (\<lambda>c. c \<noteq> CHR ''{'') responseText of
        [] \<Rightarrow> None
      | c # rest \<Rightarrow>
          if CHR ''}'' \<in> set rest
          then Some (c # rev (dropWhile (\<lambda>c. c \<noteq> CHR ''}'') (rev rest)))
          else None)"

text \<open>
  Lines 100 to 104: \<^verbatim>\<open>jsonStr\<close>. When neither pattern matches, \<^verbatim>\<open>jsonMatch\<close> is the
  response text itself, a string, and \<^verbatim>\<open>jsonMatch[1] || jsonMatch[0]\<close> is its second
  character (its first one, if it has only one); the empty text is falsy and is taken as
  it is. The pattern with braces has no group, so its \<^verbatim>\<open>jsonMatch[1]\<close> is undefined.
\<close>

definition jsonStr :: "string \<Rightarrow> string" where
  "jsonStr responseText =
     (case match_fenced responseText of
        Some (whole, group1) \<Rightarrow> if group1 \<noteq> [] then group1 else whole
      | None \<Rightarrow>
          (case match_braces responseText of
             Some whole \<Rightarrow> whole
           | None \<Rightarrow>
               (case responseText of
                  [] \<Rightarrow> []
                | [c] \<Rightarrow> [c]
                | c # c' # rest \<Rightarrow> [c'])))"

text \<open>\<^verbatim>\<open>s.replace(/```json|```/g, '')\<close>\<close>

fun strip_fences :: "string \<Rightarrow> string" where
  "strip_fences [] = []"
| "strip_fences (c # cs) =
     (if startsWith (c # cs) ''```json'' then strip_fences (drop 6 cs)
      else if startsWith (c # cs) ''```'' then strip_fences (drop 2 cs)
      else c # strip_fences cs)"

text \<open>
  Lines 99 to 111: the solution returned, or the error
  \<^verbatim>\<open>Failed to parse solution from AI response\<close> that is thrown (and thrown again by the
  outer \<^verbatim>\<open>catch\<close> and by \<^verbatim>\<open>processIssue\<close>).
\<close>

datatype solution_error = FailedToParseSolution

definition parse_solution :: "string \<Rightarrow> solution_error + json" where
  "parse_solution responseText =
     (case JSON_parse (trim (strip_fences (jsonStr responseText))) of
        None \<Rightarrow> Inl FailedToParseSolution
      | Some solution \<Rightarrow> Inr solution)"

text \<open>
  The extraction as the specification words it: the fenced block, else the region in
  braces, else the raw text itself.
\<close>

definition spec_extraction :: "string \<Rightarrow> string" where
  "spec_extraction responseText =
     (case match_fenced responseText of
        Some (whole, group1) \<Rightarrow> if group1 \<noteq> [] then group1 else whole
      | None \<Rightarrow>
          (case match_braces responseText of
             Some whole \<Rightarrow> whole
           | None \<Rightarrow> responseText))"

subsection \<open>Properties of the solution parser\<close>

text \<open>
  The error is thrown whenever the string that the source extracts does not parse, and the
  source extracts what the specification describes whenever a fence or a pair of braces
  is found (or the text has at most one character).
\<close>

lemma parse_solution_throws:
  "JSON_parse (trim (strip_fences (jsonStr t))) = None \<Longrightarrow> parse_solution t = Inl FailedToParseSolution"
  by (simp add: parse_solution_def)

lemma spec_extraction_agrees:
  "match_fenced t \<noteq> None \<or> match_braces t \<noteq> None \<or> length t \<le> 1 \<Longrightarrow> spec_extraction t = jsonStr t"
  by (auto simp: spec_extraction_def jsonStr_def split: option.splits list.splits)













subsection \<open>The shape of an object text\<close>






































subsection \<open>Properties of the review list\<close>

lemma JSON_parse_null: "JSON_parse ''null'' = Some JNull"
  by code_simp

lemma review_ok_valid: "v \<noteq> JNull \<Longrightarrow> review_ok v = Inr (is_valid_review v)"
  by (cases v) (auto split: option.splits json.splits)

lemma filter_reviews_no_null:
  "JNull \<notin> set rs \<Longrightarrow> filter_reviews rs = Inr (filter is_valid_review rs)"
  by (induction rs) (auto simp: review_ok_valid)

text \<open>
  When no element of the array is \<^verbatim>\<open>null\<close>, the elements kept are exactly the objects with
  a number \<^verbatim>\<open>line\<close> above 0 and a non-empty string \<^verbatim>\<open>comment\<close>, and no warning is given.
\<close>

lemma getReview_no_null:
  "JSON_parse (reviewText answer) = Some (JArr rs) \<Longrightarrow> JNull \<notin> set rs \<Longrightarrow>
   getReview answer = (Some (filter is_valid_review rs), [])"
  by (simp add: getReview_def filter_reviews_no_null)

lemma getReview_example:
  \<open>getReview ''[{"line":5,"comment":"ok"}, {"line":-1,"comment":"bad"}, {"foo":1}]'' =
     (Some [JObj [(units ''line'', JNum 5), (units ''comment'', JStr (units ''ok''))]], [])\<close>
  by code_simp

subsection \<open>Claims about the review list\<close>

text \<open>
  Claim C4: for a text that parses as a JSON array the parser returns exactly the valid
  elements and drops every other element silently. The filter tests
  \<^verbatim>\<open>typeof review === 'object'\<close>, which holds for \<^verbatim>\<open>null\<close>, and then reads \<^verbatim>\<open>review.line\<close>, which
  throws for \<^verbatim>\<open>null\<close>: for the array of a valid entry and \<^verbatim>\<open>null\<close> the call gives a warning
  and returns \<^verbatim>\<open>null\<close>, where the claim has the valid entry returned.
\<close>

theorem C4_null_element_loses_list:
  \<open>JSON_parse (reviewText ''[{"line":5,"comment":"ok"}, null]'') =
     Some (JArr [JObj [(units ''line'', JNum 5), (units ''comment'', JStr (units ''ok''))], JNull]) \<and>
   filter is_valid_review
     [JObj [(units ''line'', JNum 5), (units ''comment'', JStr (units ''ok''))], JNull] =
     [JObj [(units ''line'', JNum 5), (units ''comment'', JStr (units ''ok''))]] \<and>
   getReview ''[{"line":5,"comment":"ok"}, null]'' = (None, [TypeError])\<close>
  by code_simp

text \<open>
  Claim C7: when the text that \<^verbatim>\<open>getReview\<close> hands to \<^verbatim>\<open>JSON.parse\<close> (the trimmed answer)
  does not parse, or parses to something that is not an array, the call returns \<^verbatim>\<open>null\<close>
  after one warning. The model of \<^verbatim>\<open>getReview\<close> has no error result, as every exception
  is caught inside it: the call returns, and the loop over the files goes on.
\<close>

theorem C7_no_reviews:
  assumes "JSON_parse (trim answer) = None \<or>
           (\<exists>v. JSON_parse (trim answer) = Some v \<and> (\<forall>rs. v \<noteq> JArr rs))"
  shows "getReview answer = (None, [SyntaxError]) \<or> getReview answer = (None, [NotAnArray])"
proof (cases "trim answer = []")
  case True
  then show ?thesis by (simp add: getReview_def reviewText_def JSON_parse_null)
next
  case False
  then have rt: "reviewText answer = trim answer" by (simp add: reviewText_def)
  from assms show ?thesis
  proof
    assume "JSON_parse (trim answer) = None"
    then show ?thesis by (simp add: getReview_def rt)
  next
    assume "\<exists>v. JSON_parse (trim answer) = Some v \<and> (\<forall>rs. v \<noteq> JArr rs)"
    then obtain v where "JSON_parse (trim answer) = Some v" "\<forall>rs. v \<noteq> JArr rs" by blast
    then show ?thesis by (cases v) (simp_all add: getReview_def rt)
  qed
qed

theorem C7_no_reviews_witness:
  "JSON_parse (trim ''not json'') = None \<and> getReview ''not json'' = (None, [SyntaxError])"
proof -
  have p: "JSON_parse (trim ''not json'') = None" by code_simp
  have "getReview ''not json'' \<noteq> (None, [NotAnArray])" by code_simp
  with C7_no_reviews [of "''not json''"] p show ?thesis by blast
qed

subsection \<open>Claims about the solution object\<close>

text \<open>
  Claim C5: whenever the extraction (fenced block, else region in braces, else the raw
  text, fence markers stripped) yields no parseable JSON, the parser throws. For a text
  without fence and braces the source does not parse the raw text but its second
  character: the answer \<^verbatim>\<open>10 files are affected\<close> is no JSON, yet the parser returns the
  number 0 instead of throwing.
\<close>

theorem C5_prose_not_rejected:
  "JSON_parse (trim (strip_fences (spec_extraction ''10 files are affected''))) = None \<and>
   jsonStr ''10 files are affected'' = ''0'' \<and>
   parse_solution ''10 files are affected'' = Inr (JNum 0)"
  by code_simp



end
